theory Spec2Isabelle
  imports Main
begin

section \<open>Values, identities and the observation log\<close>

text \<open>
  Python objects are known by their identity. A listener owner (\<open>method.__self__\<close>), a
  function object (\<open>method.__func__\<close>) and a list object are each a natural number.
  The weak reference to an owner hashes and compares as its referent while the referent
  is alive, so the key of the listener dictionary is the owner's identity.
\<close>

type_synonym obj = nat
type_synonym func = nat
type_synonym addr = nat

datatype pyval = PNone | PBool bool | PInt int | PStr string

text \<open>The three events the dispatcher owns, and the events of the application.\<close>

datatype event = Event_loop_start | Event_loop_end | Event_queue_empty | Event nat

text \<open>
  The \<open>method\<close> argument of \<open>register_listener\<close> and \<open>unregister_method\<close>: a bound
  method has the attributes \<open>__self__\<close> and \<open>__func__\<close>, a plain function has neither.
\<close>

datatype callable = Method obj func | Function func

text \<open>
  \<open>BaseOnly\<close> stands for an instance of \<open>BaseException\<close> that is not an instance of
  \<open>Exception\<close> (\<open>SystemExit\<close>, \<open>KeyboardInterrupt\<close>); \<open>UserError\<close> for any other
  instance of \<open>Exception\<close> that application code raises.
\<close>

datatype exception = ValueError | RuntimeError | UserError string | BaseOnly string

fun is_Exception :: "exception \<Rightarrow> bool" where
  "is_Exception (BaseOnly s) = False"
| "is_Exception x = True"

text \<open>
  The place in \<open>loop\<close> a dispatch is made from: line 122, line 125, line 130, line 133
  and line 137 of EventDispatcher.py.
\<close>

datatype site = At_loop_start | Before_drain | Popped | After_pop | At_loop_end

text \<open>
  The observation log. It is written, never read, by the operations below: it records
  what happened and in which order, so that ordering properties can be stated on the
  final state. \<open>Dispatch s e d x\<close>: \<open>__dispatch_event(e, d)\<close> was entered from site \<open>s\<close>
  while \<open>exit\<close> had the value \<open>x\<close>. \<open>Call\<close>: a listener was invoked with these arguments.
  \<open>Traceback\<close>: \<open>traceback.print_exc()\<close> reported an exception. \<open>Enqueue\<close>: an entry
  was appended to the queue. \<open>Assign_exit\<close>: a listener assigned \<open>exit\<close>.
  \<open>Loop_sets_exit\<close>: line 135 assigned \<open>exit = True\<close>.
\<close>

datatype occurrence =
    Dispatch site event pyval bool
  | Call obj func event pyval pyval
  | Traceback exception
  | Enqueue event pyval
  | Assign_exit bool
  | Loop_sets_exit

section \<open>The listener dictionary\<close>

text \<open>
  \<open>Event.__listeners\<close> is a \<open>dict\<close> from owner to a list object. A \<open>dict\<close> keeps its
  entries in insertion order in an array; deleting a key leaves an unused slot behind
  (\<open>None\<close> here) and a new key goes to the end. The iterator of a \<open>dict\<close> walks that
  array by position, which is why the slots are kept. The value of an entry is the
  address of a list object in the store \<open>lists\<close>, because \<open>unregister_method\<close> and the
  dispatch loop hold a reference to the same list object.
\<close>

type_synonym dict = "(obj \<times> addr) option list"

fun items :: "dict \<Rightarrow> (obj \<times> addr) list" where
  "items [] = []"
| "items (None # t) = items t"
| "items (Some e # t) = e # items t"

definition dict_get :: "dict \<Rightarrow> obj \<Rightarrow> addr option" where
  "dict_get t k = map_of (items t) k"

definition dict_used :: "dict \<Rightarrow> nat" where
  "dict_used t = length (items t)"

fun dict_del :: "dict \<Rightarrow> obj \<Rightarrow> dict" where
  "dict_del [] k = []"
| "dict_del (None # t) k = None # dict_del t k"
| "dict_del (Some (k', a) # t) k = (if k' = k then None # t else Some (k', a) # dict_del t k)"

definition dict_new :: "dict \<Rightarrow> obj \<Rightarrow> addr \<Rightarrow> dict" where
  "dict_new t k a = t @ [Some (k, a)]"

section \<open>The state\<close>

text \<open>
  \<open>listeners w e\<close> is \<open>e.__listeners\<close>; \<open>lists\<close> is the store of list objects and
  \<open>fresh\<close> the next unused address; \<open>queue\<close> and \<open>exit\<close> are the dispatcher's
  \<open>__queue\<close> and \<open>exit\<close>. \<open>truthy w ob\<close> says that the weak reference to \<open>ob\<close> yields an
  object that tests true in \<open>if listener_object:\<close>. \<open>user\<close> is the state of the
  application, which only the listeners read and write. \<open>history\<close> is the log.
\<close>

record 'u world =
  listeners :: "event \<Rightarrow> dict"
  lists :: "addr \<Rightarrow> (func \<times> pyval) list"
  fresh :: addr
  queue :: "(event \<times> pyval) list"
  exit :: bool
  truthy :: "obj \<Rightarrow> bool"
  user :: 'u
  history :: "occurrence list"

definition observe :: "occurrence \<Rightarrow> 'u world \<Rightarrow> 'u world" where
  "observe x w = w\<lparr>history := history w @ [x]\<rparr>"


section \<open>Event\<close>

text \<open>
  \<open>register_listener\<close> (Event.py, lines 89 to 103). The new list object is allocated at
  \<open>fresh\<close>.
\<close>

definition register_listener :: "event \<Rightarrow> callable \<Rightarrow> pyval \<Rightarrow> 'u world \<Rightarrow> exception + 'u world" where
  "register_listener e method listener_data w =
     (case method of
        Function f \<Rightarrow> Inl ValueError
      | Method self f \<Rightarrow>
          (case dict_get (listeners w e) self of
             None \<Rightarrow>
               Inr (w\<lparr>listeners := (listeners w)(e := dict_new (listeners w e) self (fresh w)),
                       lists := (lists w)(fresh w := [] @ [(f, listener_data)]),
                       fresh := Suc (fresh w)\<rparr>)
           | Some a \<Rightarrow>
               Inr (w\<lparr>lists := (lists w)(a := lists w a @ [(f, listener_data)])\<rparr>)))"

text \<open>\<open>unregister_object\<close> (Event.py, lines 60 to 68).\<close>

definition unregister_object :: "event \<Rightarrow> obj \<Rightarrow> 'u world \<Rightarrow> 'u world" where
  "unregister_object e instance w =
     (if dict_get (listeners w e) instance \<noteq> None
      then w\<lparr>listeners := (listeners w)(e := dict_del (listeners w e) instance)\<rparr>
      else w)"

text \<open>
  The loop of \<open>unregister_method\<close> (lines 81 to 83): \<open>key\<close> runs from \<open>len(listeners) - 1\<close>
  down to 0; \<open>delete_from k f ls\<close> is the list after the iterations for the keys below
  \<open>k\<close>. An index read here is always inside the list: deleting at \<open>key\<close> leaves the
  entries below \<open>key\<close> in place.
\<close>

fun delete_from :: "nat \<Rightarrow> func \<Rightarrow> (func \<times> pyval) list \<Rightarrow> (func \<times> pyval) list" where
  "delete_from 0 f ls = ls"
| "delete_from (Suc key) f ls =
     delete_from key f (if fst (ls ! key) = f then take key ls @ drop (Suc key) ls else ls)"

text \<open>\<open>unregister_method\<close> (Event.py, lines 71 to 86).\<close>

definition unregister_method :: "event \<Rightarrow> callable \<Rightarrow> 'u world \<Rightarrow> 'u world" where
  "unregister_method e method w =
     (case method of
        Function f \<Rightarrow> w
      | Method self f \<Rightarrow>
          (case dict_get (listeners w e) self of
             None \<Rightarrow> w
           | Some a \<Rightarrow>
               (let ls = delete_from (length (lists w a)) f (lists w a);
                    w1 = w\<lparr>lists := (lists w)(a := ls)\<rparr>
                in if ls = []
                   then w1\<lparr>listeners := (listeners w1)(e := dict_del (listeners w1 e) self)\<rparr>
                   else w1)))"

text \<open>
  \<open>internal_queue_event\<close> (EventDispatcher.py, lines 158 to 167) and \<open>trigger\<close>
  (Event.py, line 57), with a dispatcher bound.
\<close>

definition internal_queue_event :: "event \<Rightarrow> pyval \<Rightarrow> 'u world \<Rightarrow> 'u world" where
  "internal_queue_event e event_data w =
     observe (Enqueue e event_data) (w\<lparr>queue := queue w @ [(e, event_data)]\<rparr>)"

definition trigger :: "event \<Rightarrow> pyval \<Rightarrow> 'u world \<Rightarrow> 'u world" where
  "trigger e event_data w = internal_queue_event e event_data w"

definition queue_size :: "'u world \<Rightarrow> nat" where
  "queue_size w = length (queue w)"

section \<open>The listener table is well formed\<close>



section \<open>Listeners as programs\<close>

text \<open>
  What a listener can do to the event system through its public interface:
  \<open>Event.trigger\<close>, \<open>Event.register_listener\<close>, \<open>Event.unregister_method\<close>,
  \<open>Event.unregister_object\<close> and an assignment to \<open>EventDispatcher.exit\<close>.
\<close>

datatype action =
    Trigger event pyval
  | Register_listener event callable pyval
  | Unregister_method event callable
  | Unregister_object event obj
  | Set_exit bool

datatype completion = Returns | Raises exception

text \<open>
  The code of the application's functions: \<open>code f ob e event_data listener_data w\<close> is
  what the call \<open>f(ob, e, event_data, listener_data)\<close> does in the state \<open>w\<close>: the actions
  it performs in order, the state of the application it leaves, and how it completes. The
  listeners are a parameter of the dispatcher: every theorem below that does not restrict
  \<open>code\<close> holds for all listeners.
\<close>

type_synonym 'u code =
  "func \<Rightarrow> obj \<Rightarrow> event \<Rightarrow> pyval \<Rightarrow> pyval \<Rightarrow> 'u world \<Rightarrow> action list \<times> 'u \<times> completion"

text \<open>How a call of the dispatcher ends: it returns, or an exception leaves it.\<close>

datatype 'u outcome = Normal "'u world" | Abrupt exception "'u world"

fun world_of :: "'u outcome \<Rightarrow> 'u world" where
  "world_of (Normal w) = w"
| "world_of (Abrupt x w) = w"

fun perform_action :: "action \<Rightarrow> 'u world \<Rightarrow> exception + 'u world" where
  "perform_action (Trigger e d) w = Inr (trigger e d w)"
| "perform_action (Register_listener e m d) w = register_listener e m d w"
| "perform_action (Unregister_method e m) w = Inr (unregister_method e m w)"
| "perform_action (Unregister_object e ob) w = Inr (unregister_object e ob w)"
| "perform_action (Set_exit b) w = Inr (observe (Assign_exit b) (w\<lparr>exit := b\<rparr>))"

text \<open>The actions run in order; an action that raises ends the listener there.\<close>

fun perform :: "action list \<Rightarrow> 'u world \<Rightarrow> 'u world \<times> exception option" where
  "perform [] w = (w, None)"
| "perform (a # as) w =
     (case perform_action a w of Inl x \<Rightarrow> (w, Some x) | Inr w' \<Rightarrow> perform as w')"

text \<open>The listener sees the state without the log.\<close>

definition run_listener ::
  "'u code \<Rightarrow> func \<Rightarrow> obj \<Rightarrow> event \<Rightarrow> pyval \<Rightarrow> pyval \<Rightarrow> 'u world \<Rightarrow> 'u world \<times> completion" where
  "run_listener code f ob e event_data listener_data w =
     (case code f ob e event_data listener_data (w\<lparr>history := []\<rparr>) of
        (acts, u, c) \<Rightarrow>
          (case perform acts (w\<lparr>user := u\<rparr>) of
             (w', None) \<Rightarrow> (w', c)
           | (w', Some x) \<Rightarrow> (w', Raises x)))"

section \<open>EventDispatcher\<close>

text \<open>
  The \<open>try\<close> statement of \<open>__dispatch_event\<close> (EventDispatcher.py, lines 152 to 155):
  \<open>except Exception\<close> catches an instance of \<open>Exception\<close> and prints the traceback; any
  other exception leaves \<open>__dispatch_event\<close>.
\<close>

definition call_listener ::
  "'u code \<Rightarrow> event \<Rightarrow> pyval \<Rightarrow> obj \<Rightarrow> func \<times> pyval \<Rightarrow> 'u world \<Rightarrow> 'u outcome" where
  "call_listener code e event_data ob fd w =
     (case run_listener code (fst fd) ob e event_data (snd fd)
             (observe (Call ob (fst fd) e event_data (snd fd)) w) of
        (w', Returns) \<Rightarrow> Normal w'
      | (w', Raises x) \<Rightarrow>
          if is_Exception x then Normal (observe (Traceback x) w') else Abrupt x w')"

text \<open>
  The inner \<open>for\<close> statement (line 151) iterates over the list object at \<open>a\<close> itself, not
  over a copy: the iterator of a list keeps an index and, before each step, compares it
  with the length the list has then. The result is \<open>None\<close> when the loop never ends.
\<close>

partial_function (option) for_listeners ::
  "'u code \<Rightarrow> event \<Rightarrow> pyval \<Rightarrow> obj \<Rightarrow> addr \<Rightarrow> nat \<Rightarrow> 'u world \<Rightarrow> 'u outcome option" where
  "for_listeners code e event_data ob a i w =
     (if i < length (lists w a)
      then (case call_listener code e event_data ob (lists w a ! i) w of
              Abrupt x w' \<Rightarrow> Some (Abrupt x w')
            | Normal w' \<Rightarrow> for_listeners code e event_data ob a (Suc i) w')
      else Some (Normal w))"

declare for_listeners.simps [code]

text \<open>The first used slot of a dictionary's array at or after position \<open>i\<close>.\<close>

fun first_used :: "dict \<Rightarrow> nat \<Rightarrow> (nat \<times> obj \<times> addr) option" where
  "first_used [] i = None"
| "first_used (None # t) i = first_used t (Suc i)"
| "first_used (Some (k, a) # t) i = Some (i, k, a)"

text \<open>
  The outer \<open>for\<close> statement (line 148) iterates over the dictionary of the event itself,
  not over a copy. The iterator of a \<open>dict\<close> (CPython 3.8 and later) keeps the size the
  dictionary had when the iteration began (\<open>di_used\<close>), the number of keys it has still to
  give (\<open>len\<close>) and a position in the array (\<open>di_pos\<close>). Each step raises \<open>RuntimeError\<close>
  when the size differs from \<open>di_used\<close> (\<open>dictionary changed size during iteration\<close>),
  ends the loop when no used slot is left, raises \<open>RuntimeError\<close> when a used slot is left
  but \<open>len\<close> is 0 (\<open>dictionary keys changed during iteration\<close>), and gives the key
  otherwise. The rebuilding of the array when a growing dictionary is resized is not
  modelled. The \<open>RuntimeError\<close> is raised by the \<open>for\<close> statement, outside the \<open>try\<close>.
\<close>

fun for_keys ::
  "'u code \<Rightarrow> event \<Rightarrow> pyval \<Rightarrow> nat \<Rightarrow> nat \<Rightarrow> nat \<Rightarrow> 'u world \<Rightarrow> 'u outcome option" where
  "for_keys code e event_data di_used 0 di_pos w =
     (if di_used \<noteq> dict_used (listeners w e) then Some (Abrupt RuntimeError w)
      else (case first_used (drop di_pos (listeners w e)) di_pos of
              None \<Rightarrow> Some (Normal w)
            | Some (i, ob, a) \<Rightarrow> Some (Abrupt RuntimeError w)))"
| "for_keys code e event_data di_used (Suc len) di_pos w =
     (if di_used \<noteq> dict_used (listeners w e) then Some (Abrupt RuntimeError w)
      else (case first_used (drop di_pos (listeners w e)) di_pos of
              None \<Rightarrow> Some (Normal w)
            | Some (i, ob, a) \<Rightarrow>
                (case (if truthy w ob then for_listeners code e event_data ob a 0 w
                       else Some (Normal w)) of
                   None \<Rightarrow> None
                 | Some (Abrupt x w') \<Rightarrow> Some (Abrupt x w')
                 | Some (Normal w') \<Rightarrow> for_keys code e event_data di_used len (Suc i) w')))"

text \<open>
  \<open>__dispatch_event\<close> (EventDispatcher.py, lines 140 to 155). The site is written to
  the log only.
\<close>

definition dispatch_event ::
  "'u code \<Rightarrow> site \<Rightarrow> event \<Rightarrow> pyval \<Rightarrow> 'u world \<Rightarrow> 'u outcome option" where
  "dispatch_event code s e event_data w =
     (let w0 = observe (Dispatch s e event_data (exit w)) w;
          n = dict_used (listeners w0 e)
      in for_keys code e event_data n n 0 w0)"

text \<open>
  The \<open>while\<close> statement of \<open>loop\<close> (lines 127 to 135). The result is \<open>None\<close> when the
  loop never ends.
\<close>

partial_function (option) drain :: "'u code \<Rightarrow> 'u world \<Rightarrow> 'u outcome option" where
  "drain code w =
     (case queue w of
        [] \<Rightarrow> Some (Normal w)
      | (e, event_data) # q \<Rightarrow>
          (case dispatch_event code Popped e event_data (w\<lparr>queue := q\<rparr>) of
             None \<Rightarrow> None
           | Some (Abrupt x w1) \<Rightarrow> Some (Abrupt x w1)
           | Some (Normal w1) \<Rightarrow>
               if queue w1 = [] \<and> \<not> exit w1
               then (case dispatch_event code After_pop Event_queue_empty PNone w1 of
                       None \<Rightarrow> None
                     | Some (Abrupt x w2) \<Rightarrow> Some (Abrupt x w2)
                     | Some (Normal w2) \<Rightarrow>
                         drain code (if queue w2 = []
                                     then observe Loop_sets_exit (w2\<lparr>exit := True\<rparr>)
                                     else w2))
               else drain code w1))"

declare drain.simps [code]

text \<open>\<open>loop\<close> (EventDispatcher.py, lines 113 to 137).\<close>

definition loop :: "'u code \<Rightarrow> 'u world \<Rightarrow> 'u outcome option" where
  "loop code w =
     (case dispatch_event code At_loop_start Event_loop_start PNone w of
        None \<Rightarrow> None
      | Some (Abrupt x w1) \<Rightarrow> Some (Abrupt x w1)
      | Some (Normal w1) \<Rightarrow>
          (case (if \<not> exit w1 \<and> queue w1 = []
                 then dispatch_event code Before_drain Event_queue_empty PNone w1
                 else Some (Normal w1)) of
             None \<Rightarrow> None
           | Some (Abrupt x w2) \<Rightarrow> Some (Abrupt x w2)
           | Some (Normal w2) \<Rightarrow>
               (case drain code w2 of
                  None \<Rightarrow> None
                | Some (Abrupt x w3) \<Rightarrow> Some (Abrupt x w3)
                | Some (Normal w3) \<Rightarrow>
                    dispatch_event code At_loop_end Event_loop_end PNone w3)))"

text \<open>A dispatcher as its constructor leaves it, with no listener registered.\<close>

definition initial :: "(obj \<Rightarrow> bool) \<Rightarrow> 'u \<Rightarrow> 'u world" where
  "initial t u =
     \<lparr>listeners = (\<lambda>e. []), lists = (\<lambda>a. []), fresh = 0, queue = [], exit = False,
      truthy = t, user = u, history = []\<rparr>"

section \<open>The invariant of the listener table, in the words of the spec\<close>


section \<open>Example states\<close>


section \<open>Reading the log\<close>

text \<open>
  The entries appended to the queue, the entries popped and dispatched by the \<open>while\<close>
  loop, and all dispatches, each in the order of the log.
\<close>

fun enqueued :: "occurrence list \<Rightarrow> (event \<times> pyval) list" where
  "enqueued [] = []"
| "enqueued (Enqueue e d # h) = (e, d) # enqueued h"
| "enqueued (x # h) = enqueued h"

fun popped :: "occurrence list \<Rightarrow> (event \<times> pyval) list" where
  "popped [] = []"
| "popped (Dispatch Popped e d x # h) = (e, d) # popped h"
| "popped (y # h) = popped h"

fun dispatched :: "occurrence list \<Rightarrow> (site \<times> event \<times> pyval \<times> bool) list" where
  "dispatched [] = []"
| "dispatched (Dispatch s e d x # h) = (s, e, d, x) # dispatched h"
| "dispatched (y # h) = dispatched h"

text \<open>The value of \<open>exit\<close> after the assignments of a log, from the value before.\<close>

fun exit_after :: "bool \<Rightarrow> occurrence list \<Rightarrow> bool" where
  "exit_after b [] = b"
| "exit_after b (Assign_exit c # h) = exit_after c h"
| "exit_after b (Loop_sets_exit # h) = exit_after True h"
| "exit_after b (x # h) = exit_after b h"

text \<open>The entries that the activity of listeners writes.\<close>

fun by_listener :: "occurrence \<Rightarrow> bool" where
  "by_listener (Dispatch s e d x) = False"
| "by_listener Loop_sets_exit = False"
| "by_listener x = True"

text \<open>The part of the log written between the state \<open>w\<close> and the later state \<open>w'\<close>.\<close>

definition since :: "'u world \<Rightarrow> 'u world \<Rightarrow> occurrence list" where
  "since w w' = drop (length (history w)) (history w')"

text \<open>
  \<open>w'\<close> comes from \<open>w\<close> by the activity of listeners alone: the queue has grown at its
  tail by what was triggered, and \<open>exit\<close> is what the listeners assigned last.
\<close>

definition listener_step :: "'u world \<Rightarrow> 'u world \<Rightarrow> bool" where
  "listener_step w w' \<longleftrightarrow>
     (\<exists>h. history w' = history w @ h \<and> list_all by_listener h \<and>
          queue w' = queue w @ enqueued h \<and> exit w' = exit_after (exit w) h)"

section \<open>The log of the drain loop\<close>

text \<open>
  What the \<open>while\<close> loop may dispatch: an entry it popped, or \<open>queue_empty\<close> with no
  payload while \<open>exit\<close> is false.
\<close>

fun in_drain :: "site \<times> event \<times> pyval \<times> bool \<Rightarrow> bool" where
  "in_drain (Popped, e, d, x) = True"
| "in_drain (After_pop, e, d, x) = (e = Event_queue_empty \<and> d = PNone \<and> \<not> x)"
| "in_drain (s, e, d, x) = False"

text \<open>
  \<open>w'\<close> comes from \<open>w\<close> by iterations of the \<open>while\<close> loop. What was popped, followed by
  what is still queued, is what was queued followed by what was triggered. With \<open>fin\<close>,
  line 135 has run: it is the last entry of the log, the queue is empty and \<open>exit\<close> is
  true. Without, line 135 has not run.
\<close>

definition drain_rel :: "bool \<Rightarrow> 'u world \<Rightarrow> 'u world \<Rightarrow> bool" where
  "drain_rel fin w w' \<longleftrightarrow>
     (\<exists>h. history w' = history w @ h \<and>
          popped h @ queue w' = queue w @ enqueued h \<and>
          exit w' = exit_after (exit w) h \<and>
          list_all in_drain (dispatched h) \<and>
          (if fin
           then (\<exists>h0. h = h0 @ [Loop_sets_exit] \<and> Loop_sets_exit \<notin> set h0 \<and>
                      (After_pop, Event_queue_empty, PNone, False) \<in> set (dispatched h0)) \<and>
                queue w' = [] \<and> exit w'
           else Loop_sets_exit \<notin> set h))"

section \<open>The log of the whole loop\<close>

text \<open>
  The log of a call of \<open>loop\<close> that ends with \<open>r\<close> is made of four parts: the dispatch of
  \<open>loop_start\<close> and what its listeners did (\<open>h1\<close>); nothing, or the dispatch of
  \<open>queue_empty\<close> before the \<open>while\<close> loop, made while \<open>exit\<close> was false (\<open>hq\<close>); the log of
  the \<open>while\<close> loop, in which line 135 is the last entry if it has run (\<open>hw\<close>); and the
  dispatch of \<open>loop_end\<close> (\<open>he\<close>), which is there when \<open>loop\<close> returns. When \<open>loop\<close>
  returns, \<open>hq\<close> is empty exactly when \<open>exit\<close> was true or the queue not empty after the
  listeners of \<open>loop_start\<close>, and \<open>hw\<close> is empty when the queue was empty before the
  \<open>while\<close> loop.
\<close>

definition shape ::
  "'u world \<Rightarrow> 'u outcome \<Rightarrow> occurrence list \<Rightarrow> occurrence list \<Rightarrow> occurrence list \<Rightarrow>
   occurrence list \<Rightarrow> bool" where
  "shape w r h1 hq hw he \<longleftrightarrow>
     history (world_of r) =
       history w @ Dispatch At_loop_start Event_loop_start PNone (exit w) # h1 @ hq @ hw @ he \<and>
     list_all by_listener h1 \<and>
     (hq = [] \<or>
      (\<exists>h2. hq = Dispatch Before_drain Event_queue_empty PNone False # h2 \<and>
            list_all by_listener h2)) \<and>
     list_all in_drain (dispatched hw) \<and>
     (Loop_sets_exit \<in> set hw \<longrightarrow>
        (\<exists>h0. hw = h0 @ [Loop_sets_exit] \<and> Loop_sets_exit \<notin> set h0 \<and>
              (After_pop, Event_queue_empty, PNone, False) \<in> set (dispatched h0))) \<and>
     (he = [] \<or>
      (\<exists>x h3. he = Dispatch At_loop_end Event_loop_end PNone x # h3 \<and> list_all by_listener h3)) \<and>
     ((\<exists>w'. r = Normal w') \<longrightarrow>
        he \<noteq> [] \<and>
        (hq = []) = (exit_after (exit w) h1 \<or> queue w @ enqueued h1 \<noteq> []) \<and>
        (queue w @ enqueued (h1 @ hq) = [] \<longrightarrow> hw = [])) \<and>
     popped hw @ queue (world_of r) = queue w @ enqueued (h1 @ hq @ hw @ he) \<and>
     exit (world_of r) = exit_after (exit w) (h1 @ hq @ hw @ he)"

section \<open>Example runs\<close>

text \<open>A state in which the registration has been made; unchanged where it raises.\<close>

definition registered :: "event \<Rightarrow> callable \<Rightarrow> pyval \<Rightarrow> 'u world \<Rightarrow> 'u world" where
  "registered e m d w = (case register_listener e m d w of Inr w' \<Rightarrow> w' | Inl x \<Rightarrow> w)"

text \<open>
  The scenario of the spec for the order of dispatch: the events 1, 2 and 3 (A, B and C)
  are triggered in this order before the loop; each has one listener; the listener of
  event 1 triggers event 4 (A').
\<close>

definition fifo_code :: "unit code" where
  "fifo_code f ob e d ld w =
     (if e = Event 1 then [Trigger (Event 4) PNone] else [], (), Returns)"

definition fifo_world :: "unit world" where
  "fifo_world =
     trigger (Event 3) PNone (trigger (Event 2) PNone (trigger (Event 1) PNone
       (registered (Event 4) (Method 1 7) PNone (registered (Event 3) (Method 1 7) PNone
         (registered (Event 2) (Method 1 7) PNone (registered (Event 1) (Method 1 7) PNone
           (initial (\<lambda>ob. True) ())))))))"

text \<open>One listener on event 2, and event 2 triggered once.\<close>

definition single_world :: "unit world" where
  "single_world =
     trigger (Event 2) PNone (registered (Event 2) (Method 1 7) PNone (initial (\<lambda>ob. True) ()))"

section \<open>Listeners that leave the table of the dispatched event alone\<close>
















section \<open>Facts about the listener dictionary\<close>






section \<open>Registering a listener\<close>


section \<open>Well-formed listener tables\<close>












lemma register_listener_same_keys:
  "dict_get (listeners w e) ob \<noteq> None \<Longrightarrow> register_listener e (Method ob f) d w = Inr w' \<Longrightarrow>
   listeners w' = listeners w"
  by (auto simp add: register_listener_def)






section \<open>What listeners can change\<close>

lemma enqueued_append: "enqueued (h1 @ h2) = enqueued h1 @ enqueued h2"
  by (induction h1 rule: enqueued.induct) simp_all

lemma popped_append: "popped (h1 @ h2) = popped h1 @ popped h2"
  by (induction h1 rule: popped.induct) simp_all

lemma dispatched_append: "dispatched (h1 @ h2) = dispatched h1 @ dispatched h2"
  by (induction h1 rule: dispatched.induct) simp_all

lemma exit_after_append: "exit_after b (h1 @ h2) = exit_after (exit_after b h1) h2"
  by (induction b h1 rule: exit_after.induct) simp_all

lemma listener_step_refl: "listener_step w w"
  by (simp add: listener_step_def)

lemma listener_step_trans:
  assumes "listener_step w w1" and "listener_step w1 w2" shows "listener_step w w2"
proof -
  from assms(1) obtain h1 where h1: "history w1 = history w @ h1" "list_all by_listener h1"
    "queue w1 = queue w @ enqueued h1" "exit w1 = exit_after (exit w) h1"
    unfolding listener_step_def by blast
  from assms(2) obtain h2 where h2: "history w2 = history w1 @ h2" "list_all by_listener h2"
    "queue w2 = queue w1 @ enqueued h2" "exit w2 = exit_after (exit w1) h2"
    unfolding listener_step_def by blast
  have "history w2 = history w @ (h1 @ h2)" using h1 h2 by simp
  moreover have "list_all by_listener (h1 @ h2)" using h1 h2 by simp
  moreover have "queue w2 = queue w @ enqueued (h1 @ h2)" using h1 h2 by (simp add: enqueued_append)
  moreover have "exit w2 = exit_after (exit w) (h1 @ h2)" using h1 h2 by (simp add: exit_after_append)
  ultimately show ?thesis unfolding listener_step_def by blast
qed

lemma listener_step_single:
  assumes "history w' = history w @ [x]" and "by_listener x"
    and "queue w' = queue w @ enqueued [x]" and "exit w' = exit_after (exit w) [x]"
  shows "listener_step w w'"
  unfolding listener_step_def using assms by (intro exI [of _ "[x]"]) simp

lemma listener_step_same:
  assumes "history w' = history w" and "queue w' = queue w" and "exit w' = exit w"
  shows "listener_step w w'"
  unfolding listener_step_def using assms by (intro exI [of _ "[]"]) simp

lemma unregister_method_frame:
  "history (unregister_method e m w) = history w \<and> queue (unregister_method e m w) = queue w \<and>
   exit (unregister_method e m w) = exit w \<and> truthy (unregister_method e m w) = truthy w"
  by (simp add: unregister_method_def Let_def split: callable.splits option.splits)

lemma unregister_object_frame:
  "history (unregister_object e ob w) = history w \<and> queue (unregister_object e ob w) = queue w \<and>
   exit (unregister_object e ob w) = exit w \<and> truthy (unregister_object e ob w) = truthy w"
  by (simp add: unregister_object_def)

lemma register_listener_frame:
  "register_listener e m d w = Inr w' \<Longrightarrow>
   history w' = history w \<and> queue w' = queue w \<and> exit w' = exit w \<and> truthy w' = truthy w"
  by (auto simp add: register_listener_def split: callable.splits option.splits)

lemma listener_step_perform_action:
  assumes "perform_action a w = Inr w'" shows "listener_step w w'"
proof (cases a)
  case (Trigger e d)
  with assms show ?thesis
    by (auto intro!: listener_step_single [where x = "Enqueue e d"]
        simp add: trigger_def internal_queue_event_def observe_def)
next
  case (Register_listener e m d)
  with assms register_listener_frame [of e m d w w'] show ?thesis
    by (auto intro!: listener_step_same)
next
  case (Unregister_method e m)
  with assms unregister_method_frame [of e m w] show ?thesis
    by (auto intro!: listener_step_same)
next
  case (Unregister_object e ob)
  with assms unregister_object_frame [of e ob w] show ?thesis
    by (auto intro!: listener_step_same)
next
  case (Set_exit b)
  with assms show ?thesis
    by (auto intro!: listener_step_single [where x = "Assign_exit b"] simp add: observe_def)
qed

lemma listener_step_perform: "perform acts w = (w', xo) \<Longrightarrow> listener_step w w'"
proof (induction acts arbitrary: w)
  case Nil
  then show ?case by (simp add: listener_step_refl)
next
  case (Cons a acts)
  show ?case
  proof (cases "perform_action a w")
    case (Inl x)
    with Cons.prems show ?thesis by (simp add: listener_step_refl)
  next
    case (Inr w1)
    with Cons.prems have "perform acts w1 = (w', xo)" by simp
    from listener_step_trans [OF listener_step_perform_action [OF Inr] Cons.IH [OF this]]
    show ?thesis .
  qed
qed

lemma listener_step_run_listener:
  assumes "run_listener code f ob e d ld w = (w', c)" shows "listener_step w w'"
proof -
  obtain acts u c0 where code: "code f ob e d ld (w\<lparr>history := []\<rparr>) = (acts, u, c0)"
    by (cases "code f ob e d ld (w\<lparr>history := []\<rparr>)") auto
  obtain w1 xo where p: "perform acts (w\<lparr>user := u\<rparr>) = (w1, xo)"
    by (cases "perform acts (w\<lparr>user := u\<rparr>)") auto
  from assms code p have "w' = w1" by (auto simp add: run_listener_def split: option.splits)
  moreover have "listener_step w (w\<lparr>user := u\<rparr>)" by (rule listener_step_same) simp_all
  ultimately show ?thesis using listener_step_trans listener_step_perform [OF p] by blast
qed

lemma listener_step_call_listener: "listener_step w (world_of (call_listener code e d ob fd w))"
proof -
  let ?w0 = "observe (Call ob (fst fd) e d (snd fd)) w"
  obtain w1 c where r: "run_listener code (fst fd) ob e d (snd fd) ?w0 = (w1, c)"
    by (cases "run_listener code (fst fd) ob e d (snd fd) ?w0") auto
  have s0: "listener_step w ?w0"
    by (rule listener_step_single [where x = "Call ob (fst fd) e d (snd fd)"])
      (simp_all add: observe_def)
  have s1: "listener_step ?w0 w1" by (rule listener_step_run_listener [OF r])
  have s2: "listener_step w1 (observe (Traceback x) w1)" for x
    by (rule listener_step_single [where x = "Traceback x"]) (simp_all add: observe_def)
  show ?thesis
  proof (cases c)
    case Returns
    with r s0 s1 show ?thesis by (auto simp add: call_listener_def intro: listener_step_trans)
  next
    case (Raises x)
    with r s0 s1 s2 [of x] show ?thesis
      by (auto simp add: call_listener_def intro: listener_step_trans)
  qed
qed

lemmas for_listeners_induct =
  for_listeners.raw_induct [rotated 1, consumes 1, case_names step]

lemmas drain_induct = drain.raw_induct [rotated 1, consumes 1, case_names step]

lemma listener_step_for_listeners:
  assumes "for_listeners code e d ob a i w = Some r"
  shows "listener_step w (world_of r)"
  using assms
proof (induction code e d ob a i w r rule: for_listeners_induct)
  case (step rec code e d ob a i w r)
  show ?case
  proof (cases "i < length (lists w a)")
    case False
    with step.hyps show ?thesis by (auto simp add: listener_step_refl)
  next
    case True
    note s = listener_step_call_listener [of w code e d ob "lists w a ! i"]
    show ?thesis
    proof (cases "call_listener code e d ob (lists w a ! i) w")
      case (Abrupt x w1)
      with True step.hyps s show ?thesis by auto
    next
      case (Normal w1)
      with True step.hyps have "rec code e d ob a (Suc i) w1 = Some r" by simp
      from step.IH [OF this] s Normal show ?thesis by (auto intro: listener_step_trans)
    qed
  qed
qed

lemma listener_step_for_keys:
  "for_keys code e d u n p w = Some r \<Longrightarrow> listener_step w (world_of r)"
proof (induction code e d u n p w arbitrary: r rule: for_keys.induct)
  case (1 code e d u p w)
  then show ?case
    by (auto simp add: listener_step_refl split: if_splits option.splits)
next
  case (2 code e d u n p w)
  show ?case
  proof (cases "u \<noteq> dict_used (listeners w e)")
    case True
    with 2(2) show ?thesis by (auto simp add: listener_step_refl)
  next
    case same: False
    show ?thesis
    proof (cases "first_used (drop p (listeners w e)) p")
      case None
      with same 2(2) show ?thesis by (auto simp add: listener_step_refl)
    next
      case (Some t)
      obtain i ob a where t: "t = (i, ob, a)" by (cases t) auto
      let ?inner = "if truthy w ob then for_listeners code e d ob a 0 w else Some (Normal w)"
      show ?thesis
      proof (cases ?inner)
        case None
        with same Some t 2(2) show ?thesis by simp
      next
        case inner: (Some r1)
        have s1: "listener_step w (world_of r1)"
          using inner listener_step_for_listeners [of code e d ob a 0 w r1]
          by (auto simp add: listener_step_refl split: if_splits)
        show ?thesis
        proof (cases r1)
          case (Abrupt x w1)
          with same Some t inner 2(2) s1 show ?thesis by auto
        next
          case (Normal w1)
          with same Some t inner 2(2) have "for_keys code e d u n (Suc i) w1 = Some r" by simp
          from 2(1) [OF _ Some t [symmetric] refl inner Normal this] same
          have "listener_step w1 (world_of r)" by simp
          with s1 Normal show ?thesis by (auto intro: listener_step_trans)
        qed
      qed
    qed
  qed
qed

lemma dispatch_event_log:
  assumes "dispatch_event code s e d w = Some r"
  shows "\<exists>h. history (world_of r) = history w @ Dispatch s e d (exit w) # h \<and>
             list_all by_listener h \<and>
             queue (world_of r) = queue w @ enqueued h \<and>
             exit (world_of r) = exit_after (exit w) h"
proof -
  let ?w0 = "observe (Dispatch s e d (exit w)) w"
  from assms have "for_keys code e d (dict_used (listeners ?w0 e)) (dict_used (listeners ?w0 e)) 0 ?w0 = Some r"
    by (simp add: dispatch_event_def Let_def)
  from listener_step_for_keys [OF this] show ?thesis
    by (auto simp add: listener_step_def observe_def)
qed

section \<open>The drain loop\<close>

lemma by_listener_popped: "list_all by_listener h \<Longrightarrow> popped h = []"
  by (induction h rule: popped.induct) simp_all

lemma by_listener_dispatched: "list_all by_listener h \<Longrightarrow> dispatched h = []"
  by (induction h rule: dispatched.induct) simp_all

lemma by_listener_no_exit: "list_all by_listener h \<Longrightarrow> Loop_sets_exit \<notin> set h"
  by (induction h) auto

lemma drain_rel_refl: "drain_rel False w w"
  by (simp add: drain_rel_def)

lemma drain_rel_trans:
  assumes "drain_rel False w w1" and "drain_rel fin w1 w2"
  shows "drain_rel fin w w2"
proof -
  from assms(1) obtain h1 where h1: "history w1 = history w @ h1"
    "popped h1 @ queue w1 = queue w @ enqueued h1" "exit w1 = exit_after (exit w) h1"
    "list_all in_drain (dispatched h1)" "Loop_sets_exit \<notin> set h1"
    unfolding drain_rel_def by auto
  from assms(2) obtain h2 where h2: "history w2 = history w1 @ h2"
    "popped h2 @ queue w2 = queue w1 @ enqueued h2" "exit w2 = exit_after (exit w1) h2"
    "list_all in_drain (dispatched h2)"
    and fin: "if fin then (\<exists>h0. h2 = h0 @ [Loop_sets_exit] \<and> Loop_sets_exit \<notin> set h0 \<and>
                  (After_pop, Event_queue_empty, PNone, False) \<in> set (dispatched h0)) \<and>
                queue w2 = [] \<and> exit w2
              else Loop_sets_exit \<notin> set h2"
    unfolding drain_rel_def by auto
  have a: "history w2 = history w @ (h1 @ h2)" using h1 h2 by simp
  have "popped (h1 @ h2) @ queue w2 = popped h1 @ (queue w1 @ enqueued h2)"
    using h2(2) by (simp add: popped_append)
  also have "\<dots> = queue w @ enqueued (h1 @ h2)"
    using h1(2) by (simp add: enqueued_append)
  finally have b: "popped (h1 @ h2) @ queue w2 = queue w @ enqueued (h1 @ h2)" .
  have c: "exit w2 = exit_after (exit w) (h1 @ h2)"
    using h1 h2 by (simp add: exit_after_append)
  have d: "list_all in_drain (dispatched (h1 @ h2))"
    using h1 h2 by (simp add: dispatched_append)
  have e: "if fin then (\<exists>h0. h1 @ h2 = h0 @ [Loop_sets_exit] \<and> Loop_sets_exit \<notin> set h0 \<and>
                  (After_pop, Event_queue_empty, PNone, False) \<in> set (dispatched h0)) \<and>
                queue w2 = [] \<and> exit w2
           else Loop_sets_exit \<notin> set (h1 @ h2)"
  proof (cases fin)
    case True
    with fin obtain h0 where "h2 = h0 @ [Loop_sets_exit]" "Loop_sets_exit \<notin> set h0"
      "(After_pop, Event_queue_empty, PNone, False) \<in> set (dispatched h0)" by auto
    with h1(5) have "h1 @ h2 = (h1 @ h0) @ [Loop_sets_exit] \<and> Loop_sets_exit \<notin> set (h1 @ h0) \<and>
        (After_pop, Event_queue_empty, PNone, False) \<in> set (dispatched (h1 @ h0))"
      by (simp add: dispatched_append)
    then have "\<exists>h0. h1 @ h2 = h0 @ [Loop_sets_exit] \<and> Loop_sets_exit \<notin> set h0 \<and>
        (After_pop, Event_queue_empty, PNone, False) \<in> set (dispatched h0)" by blast
    with True fin show ?thesis by simp
  next
    case False
    with fin h1(5) show ?thesis by simp
  qed
  show ?thesis unfolding drain_rel_def using a b c d e by blast
qed

lemma drain_rel_pop:
  assumes "queue w = (e, d) # q" and "dispatch_event code Popped e d (w\<lparr>queue := q\<rparr>) = Some r"
  shows "drain_rel False w (world_of r)"
proof -
  from dispatch_event_log [OF assms(2)] obtain h where
    h: "history (world_of r) = history w @ Dispatch Popped e d (exit w) # h"
       "list_all by_listener h" "queue (world_of r) = q @ enqueued h"
       "exit (world_of r) = exit_after (exit w) h"
    by auto
  let ?h = "Dispatch Popped e d (exit w) # h"
  have "popped ?h @ queue (world_of r) = queue w @ enqueued ?h"
    using h assms(1) by (simp add: by_listener_popped)
  moreover have "list_all in_drain (dispatched ?h)" using h by (simp add: by_listener_dispatched)
  moreover have "Loop_sets_exit \<notin> set ?h" using h by (simp add: by_listener_no_exit)
  moreover have "exit (world_of r) = exit_after (exit w) ?h" using h by simp
  ultimately show ?thesis unfolding drain_rel_def using h(1) by auto
qed

lemma drain_rel_queue_empty:
  assumes "\<not> exit w" and "dispatch_event code After_pop Event_queue_empty PNone w = Some r"
  shows "drain_rel False w (world_of r)"
proof -
  from dispatch_event_log [OF assms(2)] obtain h where
    h: "history (world_of r) = history w @ Dispatch After_pop Event_queue_empty PNone (exit w) # h"
       "list_all by_listener h" "queue (world_of r) = queue w @ enqueued h"
       "exit (world_of r) = exit_after (exit w) h"
    by auto
  let ?h = "Dispatch After_pop Event_queue_empty PNone (exit w) # h"
  have "popped ?h @ queue (world_of r) = queue w @ enqueued ?h"
    using h by (simp add: by_listener_popped)
  moreover have "list_all in_drain (dispatched ?h)"
    using h assms(1) by (simp add: by_listener_dispatched)
  moreover have "Loop_sets_exit \<notin> set ?h" using h by (simp add: by_listener_no_exit)
  moreover have "exit (world_of r) = exit_after (exit w) ?h" using h by simp
  ultimately show ?thesis unfolding drain_rel_def using h(1) by auto
qed

lemma drain_rel_sets_exit:
  assumes "\<not> exit w"
    and "dispatch_event code After_pop Event_queue_empty PNone w = Some (Normal w2)"
    and "queue w2 = []"
  shows "drain_rel True w (observe Loop_sets_exit (w2\<lparr>exit := True\<rparr>))"
proof -
  from dispatch_event_log [OF assms(2)] obtain h where
    h: "history w2 = history w @ Dispatch After_pop Event_queue_empty PNone (exit w) # h"
       "list_all by_listener h" "queue w2 = queue w @ enqueued h"
       "exit w2 = exit_after (exit w) h"
    by auto
  let ?before = "Dispatch After_pop Event_queue_empty PNone False # h"
  let ?h = "?before @ [Loop_sets_exit]"
  let ?w3 = "observe Loop_sets_exit (w2\<lparr>exit := True\<rparr>)"
  have a: "history ?w3 = history w @ ?h" using h assms(1) by (simp add: observe_def)
  have b: "popped ?h @ queue ?w3 = queue w @ enqueued ?h"
    using h assms(3) by (simp add: observe_def by_listener_popped popped_append enqueued_append)
  have c: "exit ?w3 = exit_after (exit w) ?h"
    by (simp add: observe_def exit_after_append)
  have d: "list_all in_drain (dispatched ?h)"
    using h by (simp add: by_listener_dispatched dispatched_append)
  have e: "Loop_sets_exit \<notin> set ?before" using by_listener_no_exit [OF h(2)] by simp
  have f: "(After_pop, Event_queue_empty, PNone, False) \<in> set (dispatched ?before)" by simp
  have g: "queue ?w3 = [] \<and> exit ?w3" using assms(3) by (simp add: observe_def)
  have fin: "\<exists>h0. ?h = h0 @ [Loop_sets_exit] \<and> Loop_sets_exit \<notin> set h0 \<and>
      (After_pop, Event_queue_empty, PNone, False) \<in> set (dispatched h0)"
    using e f by blast
  show ?thesis unfolding drain_rel_def if_True using a b c d fin g by blast
qed

lemma drain_sound:
  assumes "drain code w = Some r"
  shows "(queue w = [] \<longrightarrow> r = Normal w) \<and> (\<exists>fin. drain_rel fin w (world_of r)) \<and>
         (\<forall>w'. r = Normal w' \<longrightarrow> queue w' = [])"
  using assms
proof (induction code w r rule: drain_induct)
  case (step rec code w r)
  show ?case
  proof (cases "queue w")
    case Nil
    with step.hyps have "r = Normal w" by simp
    with Nil drain_rel_refl [of w] show ?thesis by auto
  next
    case (Cons ed q)
    obtain e d where ed: "ed = (e, d)" by (cases ed) auto
    note qw = Cons [unfolded ed]
    show ?thesis
    proof (cases "dispatch_event code Popped e d (w\<lparr>queue := q\<rparr>)")
      case None
      with qw step.hyps show ?thesis by simp
    next
      case (Some r1)
      note s1 = drain_rel_pop [OF qw Some]
      show ?thesis
      proof (cases r1)
        case (Abrupt x w1)
        with qw Some step.hyps have "r = Abrupt x w1" by simp
        with s1 Abrupt qw show ?thesis by auto
      next
        case (Normal w1)
        show ?thesis
        proof (cases "queue w1 = [] \<and> \<not> exit w1")
          case False
          with qw Some Normal step.hyps have "rec code w1 = Some r" by auto
          from step.IH [OF this] s1 Normal qw show ?thesis
            by (auto intro: drain_rel_trans)
        next
          case True
          show ?thesis
          proof (cases "dispatch_event code After_pop Event_queue_empty PNone w1")
            case None
            with qw Some Normal True step.hyps show ?thesis by simp
          next
            case Some2: (Some r2)
            have s2: "drain_rel False w1 (world_of r2)"
              using True drain_rel_queue_empty [OF _ Some2] by simp
            have s12: "drain_rel False w (world_of r2)"
              using drain_rel_trans [OF _ s2] s1 Normal by simp
            show ?thesis
            proof (cases r2)
              case (Abrupt x w2)
              with qw Some Normal True Some2 step.hyps have "r = Abrupt x w2" by simp
              with s12 Abrupt qw show ?thesis by auto
            next
              case N2: (Normal w2)
              let ?w3 = "if queue w2 = [] then observe Loop_sets_exit (w2\<lparr>exit := True\<rparr>) else w2"
              from qw Some Normal True Some2 N2 step.hyps have rec: "rec code ?w3 = Some r"
                by simp
              note ih = step.IH [OF rec]
              show ?thesis
              proof (cases "queue w2 = []")
                case False
                with ih s12 N2 qw show ?thesis by (auto intro: drain_rel_trans)
              next
                case empty: True
                then have "queue ?w3 = []" by (simp add: observe_def)
                with ih have r: "r = Normal ?w3" by blast
                have "drain_rel True w1 ?w3"
                  using empty True drain_rel_sets_exit [of w1 code w2] Some2 N2 by simp
                with s1 Normal have "drain_rel True w ?w3" using drain_rel_trans by fastforce
                with r qw empty show ?thesis by (auto simp add: observe_def)
              qed
            qed
          qed
        qed
      qed
    qed
  qed
qed

section \<open>The whole loop\<close>

lemma loop_shape:
  assumes "loop code w = Some r"
  shows "\<exists>h1 hq hw he. shape w r h1 hq hw he"
proof -
  let ?D0 = "Dispatch At_loop_start Event_loop_start PNone (exit w)"
  obtain r1 where d1: "dispatch_event code At_loop_start Event_loop_start PNone w = Some r1"
    using assms by (cases "dispatch_event code At_loop_start Event_loop_start PNone w")
      (simp_all add: loop_def)
  from dispatch_event_log [OF d1] obtain h1 where
    h1: "history (world_of r1) = history w @ ?D0 # h1" "list_all by_listener h1"
        "queue (world_of r1) = queue w @ enqueued h1"
        "exit (world_of r1) = exit_after (exit w) h1"
    by blast
  show ?thesis
  proof (cases r1)
    case (Abrupt x w1)
    with assms d1 have "r = Abrupt x w1" by (simp add: loop_def)
    with h1 Abrupt have "shape w r h1 [] [] []" by (simp add: shape_def)
    then show ?thesis by blast
  next
    case N1: (Normal w1)
    let ?pre = "if \<not> exit w1 \<and> queue w1 = []
                then dispatch_event code Before_drain Event_queue_empty PNone w1
                else Some (Normal w1)"
    obtain r2 where d2: "?pre = Some r2"
      using assms d1 N1 by (cases ?pre) (simp_all add: loop_def)
    have "\<exists>hq. history (world_of r2) = history w1 @ hq \<and>
               queue (world_of r2) = queue w1 @ enqueued hq \<and>
               exit (world_of r2) = exit_after (exit w1) hq \<and>
               (hq = []) = (exit w1 \<or> queue w1 \<noteq> []) \<and>
               (hq = [] \<or>
                (\<exists>h2. hq = Dispatch Before_drain Event_queue_empty PNone False # h2 \<and>
                      list_all by_listener h2))"
    proof (cases "\<not> exit w1 \<and> queue w1 = []")
      case False
      with d2 have "r2 = Normal w1" by auto
      with False show ?thesis by (intro exI [of _ "[]"]) auto
    next
      case True
      with d2 have "dispatch_event code Before_drain Event_queue_empty PNone w1 = Some r2" by simp
      from dispatch_event_log [OF this] True obtain h2 where
        "history (world_of r2) =
           history w1 @ Dispatch Before_drain Event_queue_empty PNone False # h2"
        "list_all by_listener h2" "queue (world_of r2) = queue w1 @ enqueued h2"
        "exit (world_of r2) = exit_after (exit w1) h2"
        by auto
      with True show ?thesis
        by (intro exI [of _ "Dispatch Before_drain Event_queue_empty PNone False # h2"]) simp
    qed
    then obtain hq where
      hq: "history (world_of r2) = history w1 @ hq"
          "queue (world_of r2) = queue w1 @ enqueued hq"
          "exit (world_of r2) = exit_after (exit w1) hq"
          "(hq = []) = (exit w1 \<or> queue w1 \<noteq> [])"
          "hq = [] \<or> (\<exists>h2. hq = Dispatch Before_drain Event_queue_empty PNone False # h2 \<and>
                           list_all by_listener h2)"
      by blast
    have cond: "(hq = []) = (exit_after (exit w) h1 \<or> queue w @ enqueued h1 \<noteq> [])"
      using hq(4) h1 N1 by simp
    show ?thesis
    proof (cases r2)
      case (Abrupt x w2)
      with assms d1 N1 d2 have "r = Abrupt x w2" by (simp add: loop_def)
      with h1 N1 hq Abrupt have "shape w r h1 hq [] []"
        by (simp add: shape_def enqueued_append exit_after_append)
      then show ?thesis by blast
    next
      case N2: (Normal w2)
      obtain r3 where d3: "drain code w2 = Some r3"
        using assms d1 N1 d2 N2 by (cases "drain code w2") (simp_all add: loop_def)
      from drain_sound [OF d3] obtain fin where "drain_rel fin w2 (world_of r3)"
        and e3: "queue w2 = [] \<longrightarrow> r3 = Normal w2"
        by blast
      then obtain hw where
        hw: "history (world_of r3) = history w2 @ hw"
            "popped hw @ queue (world_of r3) = queue w2 @ enqueued hw"
            "exit (world_of r3) = exit_after (exit w2) hw"
            "list_all in_drain (dispatched hw)"
            "Loop_sets_exit \<in> set hw \<longrightarrow>
               (\<exists>h0. hw = h0 @ [Loop_sets_exit] \<and> Loop_sets_exit \<notin> set h0 \<and>
                     (After_pop, Event_queue_empty, PNone, False) \<in> set (dispatched h0))"
        unfolding drain_rel_def by (cases fin) auto
      have q2: "queue w2 = queue w @ enqueued h1 @ enqueued hq"
        using h1 N1 hq N2 by simp
      have x2: "exit w2 = exit_after (exit w) (h1 @ hq)"
        using h1 N1 hq N2 by (simp add: exit_after_append)
      have hist2: "history w2 = history w @ ?D0 # h1 @ hq" using h1 N1 hq N2 by simp
      have idle: "queue w @ enqueued (h1 @ hq) = [] \<longrightarrow> hw = []"
        using e3 q2 hw(1) by (auto simp add: enqueued_append)
      show ?thesis
      proof (cases r3)
        case (Abrupt x w3)
        with assms d1 N1 d2 N2 d3 have "r = Abrupt x w3" by (simp add: loop_def)
        with h1 hq hw Abrupt hist2 q2 x2 have "shape w r h1 hq hw []"
          by (simp add: shape_def enqueued_append exit_after_append)
        then show ?thesis by blast
      next
        case N3: (Normal w3)
        with assms d1 N1 d2 N2 d3
        have d4: "dispatch_event code At_loop_end Event_loop_end PNone w3 = Some r"
          by (simp add: loop_def)
        from dispatch_event_log [OF d4] obtain h3 where
          h3: "history (world_of r) =
                 history w3 @ Dispatch At_loop_end Event_loop_end PNone (exit w3) # h3"
              "list_all by_listener h3" "queue (world_of r) = queue w3 @ enqueued h3"
              "exit (world_of r) = exit_after (exit w3) h3"
          by blast
        let ?he = "Dispatch At_loop_end Event_loop_end PNone (exit w3) # h3"
        have f: "popped hw @ queue (world_of r) = queue w @ enqueued (h1 @ hq @ hw @ ?he)"
          using hw(2) N3 h3(3) q2 by (simp add: enqueued_append)
        have x: "exit (world_of r) = exit_after (exit w) (h1 @ hq @ hw @ ?he)"
          using hw(3) N3 h3(4) x2 by (simp add: exit_after_append)
        have hist: "history (world_of r) = history w @ ?D0 # h1 @ hq @ hw @ ?he"
          using hist2 hw(1) N3 h3(1) by simp
        have "shape w r h1 hq hw ?he"
          unfolding shape_def using hist h1(2) hq(5) hw(4) hw(5) h3(2) cond idle f x by blast
        then show ?thesis by blast
      qed
    qed
  qed
qed

section \<open>The order of dispatch\<close>

lemma since_eq: "history w' = history w @ h \<Longrightarrow> since w w' = h"
  by (simp add: since_def)

text \<open>
  C2. The queue is first-in first-out. \<open>internal_queue_event\<close> appends at the tail. For
  every call of \<open>loop\<close> that ends, by returning or by an exception, the entries popped and
  dispatched during the call, in the order of their dispatch, followed by the entries
  still queued at the end, are the entries queued at the start followed by the entries
  triggered during the call, in the order of their triggering. So an event triggered by a
  listener during a dispatch is dispatched after everything queued before it.
\<close>

theorem loop_fifo:
  assumes "loop code w = Some r"
  shows "queue (internal_queue_event e d wq) = queue wq @ [(e, d)] \<and>
         popped (since w (world_of r)) @ queue (world_of r) =
           queue w @ enqueued (since w (world_of r))"
proof -
  from loop_shape [OF assms] obtain h1 hq hw he where s: "shape w r h1 hq hw he" by blast
  let ?D0 = "Dispatch At_loop_start Event_loop_start PNone (exit w)"
  let ?h = "?D0 # h1 @ hq @ hw @ he"
  from s have hist: "history (world_of r) = history w @ ?h" by (simp add: shape_def)
  from s have p1: "popped h1 = []" by (simp add: shape_def by_listener_popped)
  from s have pq: "popped hq = []" by (auto simp add: shape_def by_listener_popped)
  from s have pe: "popped he = []" by (auto simp add: shape_def by_listener_popped)
  from s have f: "popped hw @ queue (world_of r) = queue w @ enqueued (h1 @ hq @ hw @ he)"
    by (simp add: shape_def)
  have "popped ?h = popped hw" using p1 pq pe by (simp add: popped_append)
  moreover have "enqueued ?h = enqueued (h1 @ hq @ hw @ he)" by simp
  ultimately have "popped ?h @ queue (world_of r) = queue w @ enqueued ?h" using f by simp
  then show ?thesis
    using since_eq [OF hist]
    by (simp add: internal_queue_event_def observe_def)
qed

lemma fifo_run:
  "map_option (\<lambda>r. (popped (since fifo_world (world_of r)), queue (world_of r)))
     (loop fifo_code fifo_world) =
   Some ([(Event 1, PNone), (Event 2, PNone), (Event 3, PNone), (Event 4, PNone)], [])"
  by code_simp

lemma fifo_world_queue:
  "queue fifo_world = [(Event 1, PNone), (Event 2, PNone), (Event 3, PNone)]"
  by code_simp

theorem loop_fifo_witness:
  "\<exists>r. loop fifo_code fifo_world = Some r \<and>
       queue fifo_world = [(Event 1, PNone), (Event 2, PNone), (Event 3, PNone)] \<and>
       enqueued (since fifo_world (world_of r)) = [(Event 4, PNone)] \<and>
       popped (since fifo_world (world_of r)) =
         [(Event 1, PNone), (Event 2, PNone), (Event 3, PNone), (Event 4, PNone)] \<and>
       queue (world_of r) = []"
proof -
  obtain r where r: "loop fifo_code fifo_world = Some r"
    using fifo_run by (cases "loop fifo_code fifo_world") auto
  with fifo_run have p: "popped (since fifo_world (world_of r)) =
      [(Event 1, PNone), (Event 2, PNone), (Event 3, PNone), (Event 4, PNone)]"
    and q: "queue (world_of r) = []" by auto
  from loop_fifo [OF r, where e = "Event 4" and d = PNone and wq = fifo_world]
    p q fifo_world_queue
  have "enqueued (since fifo_world (world_of r)) = [(Event 4, PNone)]" by simp
  with r p q fifo_world_queue show ?thesis by blast
qed

section \<open>The exit flag and the queue-empty event\<close>

lemma in_dispatched_by_listener: "list_all by_listener h \<Longrightarrow> t \<notin> set (dispatched h)"
  by (simp add: by_listener_dispatched)

text \<open>
  C3. In every call of \<open>loop\<close> that ends: a dispatch made from line 125 or line 133 is a
  dispatch of \<open>queue_empty\<close> with no payload, made while \<open>exit\<close> was false, and every dispatch of
  \<open>queue_empty\<close> that is not the dispatch of a popped entry was made while \<open>exit\<close> was
  false; once line 135 has set \<open>exit\<close>, the only dispatch that follows is that of
  \<open>loop_end\<close>. And line 135 runs as the claim says: when an iteration of the \<open>while\<close> loop
  pops the last entry with \<open>exit\<close> false, and the queue is still empty after the dispatch of
  \<open>queue_empty\<close>, the \<open>while\<close> loop ends there, with \<open>exit\<close> true.
\<close>

theorem queue_empty_guarded:
  assumes "loop code w = Some r"
  shows "(\<forall>s e d x. (s, e, d, x) \<in> set (dispatched (since w (world_of r))) \<longrightarrow>
            (s = Before_drain \<or> s = After_pop \<longrightarrow> e = Event_queue_empty \<and> d = PNone \<and> \<not> x) \<and>
            (e = Event_queue_empty \<and> s \<noteq> Popped \<longrightarrow> \<not> x)) \<and>
         (\<forall>ha hb. since w (world_of r) = ha @ Loop_sets_exit # hb \<longrightarrow>
            (\<forall>t \<in> set (dispatched hb). fst t = At_loop_end \<and> fst (snd t) = Event_loop_end)) \<and>
         (\<forall>wa e d q w1 w2.
            queue wa = (e, d) # q \<longrightarrow>
            dispatch_event code Popped e d (wa\<lparr>queue := q\<rparr>) = Some (Normal w1) \<longrightarrow>
            queue w1 = [] \<longrightarrow> \<not> exit w1 \<longrightarrow>
            dispatch_event code After_pop Event_queue_empty PNone w1 = Some (Normal w2) \<longrightarrow>
            queue w2 = [] \<longrightarrow>
            drain code wa = Some (Normal (observe Loop_sets_exit (w2\<lparr>exit := True\<rparr>))) \<and>
            exit (observe Loop_sets_exit (w2\<lparr>exit := True\<rparr>)))"
proof -
  from loop_shape [OF assms] obtain h1 hq hw he where s: "shape w r h1 hq hw he" by blast
  let ?D0 = "Dispatch At_loop_start Event_loop_start PNone (exit w)"
  let ?h = "?D0 # h1 @ hq @ hw @ he"
  from s have hist: "history (world_of r) = history w @ ?h" by (simp add: shape_def)
  note since = since_eq [OF hist]
  from s have b1: "list_all by_listener h1" by (simp add: shape_def)
  from s have sq: "hq = [] \<or> (\<exists>h2. hq = Dispatch Before_drain Event_queue_empty PNone False # h2 \<and>
            list_all by_listener h2)" by (simp add: shape_def)
  from s have sw: "list_all in_drain (dispatched hw)" by (simp add: shape_def)
  from s have se: "he = [] \<or> (\<exists>x h3. he = Dispatch At_loop_end Event_loop_end PNone x # h3 \<and>
            list_all by_listener h3)" by (simp add: shape_def)
  from s have sx: "Loop_sets_exit \<in> set hw \<longrightarrow>
        (\<exists>h0. hw = h0 @ [Loop_sets_exit] \<and> Loop_sets_exit \<notin> set h0)" by (auto simp add: shape_def)
  have dq: "set (dispatched hq) \<subseteq> {(Before_drain, Event_queue_empty, PNone, False)}"
    using sq by (auto simp add: by_listener_dispatched)
  have de: "\<forall>t \<in> set (dispatched he). fst t = At_loop_end \<and> fst (snd t) = Event_loop_end"
    using se by (auto simp add: by_listener_dispatched)
  have dall: "set (dispatched ?h) =
      {(At_loop_start, Event_loop_start, PNone, exit w)} \<union> set (dispatched hq) \<union>
      set (dispatched hw) \<union> set (dispatched he)"
    using b1 by (auto simp add: dispatched_append by_listener_dispatched)
  have part1: "(s = Before_drain \<or> s = After_pop \<longrightarrow> e = Event_queue_empty \<and> d = PNone \<and> \<not> x) \<and>
               (e = Event_queue_empty \<and> s \<noteq> Popped \<longrightarrow> \<not> x)"
    if m: "(s, e, d, x) \<in> set (dispatched ?h)" for s e d x
  proof -
    from m dall have "(s, e, d, x) = (At_loop_start, Event_loop_start, PNone, exit w) \<or>
        (s, e, d, x) \<in> set (dispatched hq) \<or> (s, e, d, x) \<in> set (dispatched hw) \<or>
        (s, e, d, x) \<in> set (dispatched he)"
      by (simp only: Un_iff singleton_iff disj_assoc)
    moreover have ?thesis if "(s, e, d, x) = (At_loop_start, Event_loop_start, PNone, exit w)"
      using that by simp
    moreover have ?thesis if "(s, e, d, x) \<in> set (dispatched hq)"
      using that dq by auto
    moreover have ?thesis if "(s, e, d, x) \<in> set (dispatched hw)"
    proof -
      from that sw have "in_drain (s, e, d, x)" by (simp add: list_all_iff)
      then show ?thesis by (cases s) simp_all
    qed
    moreover have ?thesis if "(s, e, d, x) \<in> set (dispatched he)"
      using that de by auto
    ultimately show ?thesis by argo
  qed
  have part2: "\<forall>t \<in> set (dispatched hb). fst t = At_loop_end \<and> fst (snd t) = Event_loop_end"
    if eq: "?h = ha @ Loop_sets_exit # hb" for ha hb
  proof -
    have n1: "Loop_sets_exit \<notin> set (?D0 # h1 @ hq)"
      using b1 sq by (auto dest: by_listener_no_exit)
    have ne: "Loop_sets_exit \<notin> set he" using se by (auto dest: by_listener_no_exit)
    have "Loop_sets_exit \<in> set ?h" using eq by simp
    with n1 ne have "Loop_sets_exit \<in> set hw" by auto
    with sx obtain h0 where h0: "hw = h0 @ [Loop_sets_exit]" "Loop_sets_exit \<notin> set h0" by blast
    have "(?D0 # h1 @ hq @ h0) @ Loop_sets_exit # he = ha @ Loop_sets_exit # hb"
      using eq h0 by simp
    moreover have "Loop_sets_exit \<notin> set (?D0 # h1 @ hq @ h0)" using n1 h0 by simp
    ultimately have "hb = he" using ne by (metis append_Cons_eq_iff)
    with de show ?thesis by simp
  qed
  have part3: "drain code wa = Some (Normal (observe Loop_sets_exit (w2\<lparr>exit := True\<rparr>))) \<and>
               exit (observe Loop_sets_exit (w2\<lparr>exit := True\<rparr>))"
    if "queue wa = (e, d) # q"
      and "dispatch_event code Popped e d (wa\<lparr>queue := q\<rparr>) = Some (Normal w1)"
      and "queue w1 = []" and "\<not> exit w1"
      and "dispatch_event code After_pop Event_queue_empty PNone w1 = Some (Normal w2)"
      and "queue w2 = []"
    for wa e d q w1 w2
  proof -
    let ?w3 = "observe Loop_sets_exit (w2\<lparr>exit := True\<rparr>)"
    have "queue ?w3 = []" using that(6) by (simp add: observe_def)
    then have stop: "drain code ?w3 = Some (Normal ?w3)" by (subst drain.simps) simp
    have "drain code wa = drain code ?w3" using that by (subst drain.simps) simp
    with stop show ?thesis by (simp add: observe_def)
  qed
  have c1: "\<forall>s e d x. (s, e, d, x) \<in> set (dispatched ?h) \<longrightarrow>
            (s = Before_drain \<or> s = After_pop \<longrightarrow> e = Event_queue_empty \<and> d = PNone \<and> \<not> x) \<and>
            (e = Event_queue_empty \<and> s \<noteq> Popped \<longrightarrow> \<not> x)"
    using part1 by (intro allI impI) 
  have c2: "\<forall>ha hb. ?h = ha @ Loop_sets_exit # hb \<longrightarrow>
            (\<forall>t \<in> set (dispatched hb). fst t = At_loop_end \<and> fst (snd t) = Event_loop_end)"
    using part2 by (intro allI impI)
  have c3: "\<forall>wa e d q w1 w2.
            queue wa = (e, d) # q \<longrightarrow>
            dispatch_event code Popped e d (wa\<lparr>queue := q\<rparr>) = Some (Normal w1) \<longrightarrow>
            queue w1 = [] \<longrightarrow> \<not> exit w1 \<longrightarrow>
            dispatch_event code After_pop Event_queue_empty PNone w1 = Some (Normal w2) \<longrightarrow>
            queue w2 = [] \<longrightarrow>
            drain code wa = Some (Normal (observe Loop_sets_exit (w2\<lparr>exit := True\<rparr>))) \<and>
            exit (observe Loop_sets_exit (w2\<lparr>exit := True\<rparr>))"
    using part3 by (intro allI impI)
  show ?thesis unfolding since by (intro conjI c1 c2 c3)
qed

lemma fifo_run_sites:
  "map_option (\<lambda>r. (map fst (dispatched (since fifo_world (world_of r))),
                     Loop_sets_exit \<in> set (since fifo_world (world_of r))))
     (loop fifo_code fifo_world) =
   Some ([At_loop_start, Popped, Popped, Popped, Popped, After_pop, At_loop_end], True)"
  by code_simp

lemma single_run_first:
  "(case dispatch_event fifo_code Popped (Event 2) PNone (single_world\<lparr>queue := []\<rparr>) of
      Some (Normal w1) \<Rightarrow> queue w1 = [] \<and> \<not> exit w1
    | _ \<Rightarrow> False)"
  by code_simp

lemma single_run_second:
  "(case dispatch_event fifo_code After_pop Event_queue_empty PNone
           (world_of (the (dispatch_event fifo_code Popped (Event 2) PNone
              (single_world\<lparr>queue := []\<rparr>)))) of
      Some (Normal w2) \<Rightarrow> queue w2 = []
    | _ \<Rightarrow> False)"
  by code_simp

lemma single_world_queue: "queue single_world = [(Event 2, PNone)]"
  by code_simp

theorem queue_empty_guarded_witness:
  "\<exists>r w1 w2.
     loop fifo_code fifo_world = Some r \<and>
     (After_pop, Event_queue_empty, PNone, False)
       \<in> set (dispatched (since fifo_world (world_of r))) \<and>
     (\<exists>ha hb. since fifo_world (world_of r) = ha @ Loop_sets_exit # hb \<and>
        list_all (\<lambda>t. fst t = At_loop_end \<and> fst (snd t) = Event_loop_end) (dispatched hb)) \<and>
     queue single_world = [(Event 2, PNone)] \<and>
     dispatch_event fifo_code Popped (Event 2) PNone (single_world\<lparr>queue := []\<rparr>) =
       Some (Normal w1) \<and>
     queue w1 = [] \<and> \<not> exit w1 \<and>
     dispatch_event fifo_code After_pop Event_queue_empty PNone w1 = Some (Normal w2) \<and>
     queue w2 = [] \<and>
     drain fifo_code single_world =
       Some (Normal (observe Loop_sets_exit (w2\<lparr>exit := True\<rparr>))) \<and>
     exit (observe Loop_sets_exit (w2\<lparr>exit := True\<rparr>))"
proof -
  obtain r where r: "loop fifo_code fifo_world = Some r"
    using fifo_run_sites by (cases "loop fifo_code fifo_world") auto
  with fifo_run_sites have sites: "map fst (dispatched (since fifo_world (world_of r))) =
      [At_loop_start, Popped, Popped, Popped, Popped, After_pop, At_loop_end]" by auto
  note g = queue_empty_guarded [OF r]
  have "After_pop \<in> set (map fst (dispatched (since fifo_world (world_of r))))"
    using sites by simp
  then obtain e d x where
    m: "(After_pop, e, d, x) \<in> set (dispatched (since fifo_world (world_of r)))" by auto
  from g [THEN conjunct1, rule_format, OF m]
  have ex: "e = Event_queue_empty" "d = PNone" "\<not> x" by simp_all
  with m have m': "(After_pop, Event_queue_empty, PNone, False)
      \<in> set (dispatched (since fifo_world (world_of r)))" by simp
  from r fifo_run_sites have "Loop_sets_exit \<in> set (since fifo_world (world_of r))" by auto
  then obtain ha hb where hab: "since fifo_world (world_of r) = ha @ Loop_sets_exit # hb"
    by (auto dest: split_list)
  from g [THEN conjunct2, THEN conjunct1, rule_format, OF hab]
  have tail: "list_all (\<lambda>t. fst t = At_loop_end \<and> fst (snd t) = Event_loop_end) (dispatched hb)"
    by (simp add: list_all_iff)
  obtain w1 where w1: "dispatch_event fifo_code Popped (Event 2) PNone
      (single_world\<lparr>queue := []\<rparr>) = Some (Normal w1)" "queue w1 = []" "\<not> exit w1"
    using single_run_first by (auto split: option.splits outcome.splits)
  then have "world_of (the (dispatch_event fifo_code Popped (Event 2) PNone
      (single_world\<lparr>queue := []\<rparr>))) = w1" by simp
  with single_run_second obtain w2 where
    w2: "dispatch_event fifo_code After_pop Event_queue_empty PNone w1 = Some (Normal w2)"
        "queue w2 = []"
    by (auto split: option.splits outcome.splits)
  note l = g [THEN conjunct2, THEN conjunct2, rule_format,
      OF single_world_queue w1(1) w1(2) w1(3) w2(1) w2(2)]
  from r m' hab tail single_world_queue w1 w2 l show ?thesis by blast
qed

section \<open>A dispatch whose listeners leave its table alone\<close>





















section \<open>No snapshot of the listener table\<close>










section \<open>Registering the same method twice\<close>








section \<open>A listener that raises\<close>












end
